theory Spec2Isabelle
  imports Complex_Main "HOL-Library.Word"
begin

section \<open>Heading planner (agent/planner.py)\<close>

text \<open>
  Python floats are read as real numbers throughout: rounding, overflow and NaN inputs
  are not part of this development. The one float that is not a real number and that
  the planner itself produces, \<open>float("inf")\<close>, is a value of its own.
\<close>

datatype best = Fin real | PosInf

text \<open>\<open>score < best_cost\<close>, where \<open>best_cost\<close> may still be \<open>float("inf")\<close>.\<close>

fun below :: "real \<Rightarrow> best \<Rightarrow> bool" where
  "below s PosInf = True"
| "below s (Fin b) = (s < b)"

text \<open>Lines 15-16 (and 23-24): the combined score of one candidate.\<close>

definition score_of :: "real \<Rightarrow> real \<Rightarrow> real \<Rightarrow> real \<times> real \<Rightarrow> real" where
  "score_of goal_angle_deg obs_w goal_w e =
     (let ang = fst e; oc = snd e;
          ang_err = \<bar>ang - goal_angle_deg\<bar> / 60
      in obs_w * oc + goal_w * ang_err)"

text \<open>First loop (lines 14-19): only candidates with \<open>oc < safe_thr\<close> may replace the best.\<close>

fun safe_pass :: "real \<Rightarrow> real \<Rightarrow> real \<Rightarrow> real \<Rightarrow> (real \<times> real) list
    \<Rightarrow> real \<times> best \<Rightarrow> real \<times> best" where
  "safe_pass g ow gw thr [] acc = acc"
| "safe_pass g ow gw thr ((ang, oc) # rest) (best_angle, best_cost) =
     (let score = score_of g ow gw (ang, oc)
      in if oc < thr \<and> below score best_cost
         then safe_pass g ow gw thr rest (ang, Fin score)
         else safe_pass g ow gw thr rest (best_angle, best_cost))"

text \<open>Second loop (lines 22-27): every candidate may replace the best.\<close>

fun any_pass :: "real \<Rightarrow> real \<Rightarrow> real \<Rightarrow> (real \<times> real) list
    \<Rightarrow> real \<times> best \<Rightarrow> real \<times> best" where
  "any_pass g ow gw [] acc = acc"
| "any_pass g ow gw ((ang, oc) # rest) (best_angle, best_cost) =
     (let score = score_of g ow gw (ang, oc)
      in if below score best_cost
         then any_pass g ow gw rest (ang, Fin score)
         else any_pass g ow gw rest (best_angle, best_cost))"

definition pick_heading :: "(real \<times> real) list \<Rightarrow> real \<Rightarrow> real \<Rightarrow> real \<Rightarrow> real
    \<Rightarrow> real \<times> best" where
  "pick_heading heading_costs goal_angle_deg obs_w goal_w safe_thr =
     (let r = safe_pass goal_angle_deg obs_w goal_w safe_thr heading_costs (0, PosInf)
      in if snd r = PosInf
         then any_pass goal_angle_deg obs_w goal_w heading_costs r
         else r)"

subsection \<open>Commands and goal geometry\<close>

text \<open>
  A JSON object with numeric values, such as the position the simulator reports, is a
  finite map from keys to numbers; \<open>d.get(k, default)\<close> reads it.
\<close>

type_synonym pydict = "string \<rightharpoonup> real"

definition dict_get :: "pydict \<Rightarrow> string \<Rightarrow> real \<Rightarrow> real" where
  "dict_get d k dflt = (case d k of Some v \<Rightarrow> v | None \<Rightarrow> dflt)"

text \<open>
  The goal of an episode always carries the three keys (\<open>Navigator.set_goal\<close> builds it
  as \<open>{"x": .., "y": .., "z": ..}\<close>), so it is a record; \<open>goal["x"]\<close> cannot fail on it.
\<close>

record goal =
  goal_x :: real
  goal_y :: real
  goal_z :: real

text \<open>A relative motion command \<open>{"turn": .., "distance": ..}\<close>.\<close>

record command =
  turn :: real
  distance :: real

definition step_from_heading :: "real \<Rightarrow> real \<Rightarrow> command" where
  "step_from_heading angle_deg step_dist = \<lparr>turn = angle_deg, distance = step_dist\<rparr>"

text \<open>
  \<open>math.atan2(y, x)\<close> and \<open>math.degrees\<close> over the reals: the angle of the point
  \<open>(x, y)\<close> in \<open>(-pi, pi]\<close>, and \<open>0\<close> at the origin.
\<close>

definition atan2 :: "real \<Rightarrow> real \<Rightarrow> real" where
  "atan2 y x =
     (if 0 < x then arctan (y / x)
      else if x < 0 \<and> 0 \<le> y then arctan (y / x) + pi
      else if x < 0 \<and> y < 0 then arctan (y / x) - pi
      else if 0 < y then pi / 2
      else if y < 0 then - (pi / 2)
      else 0)"

definition degrees :: "real \<Rightarrow> real" where
  "degrees r = r * 180 / pi"

definition goal_bearing_from_position :: "pydict \<Rightarrow> goal \<Rightarrow> real" where
  "goal_bearing_from_position pos g =
     (let dx = goal_x g - dict_get pos ''x'' 0;
          dz = goal_z g - dict_get pos ''z'' 0;
          angle_rad = atan2 dx dz;
          angle_deg = degrees angle_rad
      in angle_deg)"

definition close_to_goal :: "pydict \<Rightarrow> goal \<Rightarrow> real \<Rightarrow> bool" where
  "close_to_goal pos g radius =
     (let dx = goal_x g - dict_get pos ''x'' 0;
          dz = goal_z g - dict_get pos ''z'' 0
      in sqrt (dx * dx + dz * dz) \<le> radius)"

text \<open>
  Moving a pose or a goal by a vector \<open>(tx, ty, tz)\<close>. A key the pose lacks counts with
  the default \<open>0.0\<close> that the planner reads for it.
\<close>

definition translate_pos :: "pydict \<Rightarrow> real \<times> real \<times> real \<Rightarrow> pydict" where
  "translate_pos pos t =
     (case t of (tx, ty, tz) \<Rightarrow>
        pos(''x'' \<mapsto> dict_get pos ''x'' 0 + tx,
            ''y'' \<mapsto> dict_get pos ''y'' 0 + ty,
            ''z'' \<mapsto> dict_get pos ''z'' 0 + tz))"

definition translate_goal :: "goal \<Rightarrow> real \<times> real \<times> real \<Rightarrow> goal" where
  "translate_goal g t =
     (case t of (tx, ty, tz) \<Rightarrow>
        \<lparr>goal_x = goal_x g + tx, goal_y = goal_y g + ty, goal_z = goal_z g + tz\<rparr>)"

section \<open>Arena corners (server.py and agent/agent.py)\<close>

text \<open>A corner position as the tables hold it: integer \<open>x\<close>, \<open>y\<close>, \<open>z\<close>.\<close>

record corner_pos =
  pos_x :: int
  pos_y :: int
  pos_z :: int

text \<open>\<open>str.upper\<close> on ASCII text.\<close>

definition upper_char :: "char \<Rightarrow> char" where
  "upper_char c =
     (let n = (of_char c :: nat) in if 97 \<le> n \<and> n \<le> 122 then char_of (n - 32) else c)"

definition upper :: "string \<Rightarrow> string" where
  "upper s = map upper_char s"

definition FLOOR_HALF :: int where
  "FLOOR_HALF = 50"

text \<open>
  \<open>corner_to_coords\<close> of the bridge server: two defaults from the letters of the name,
  then four overriding tests in sequence. The \<open>/goal\<close> endpoint calls it with the default
  margin \<open>5\<close>.
\<close>

definition corner_to_coords :: "string \<Rightarrow> int \<Rightarrow> corner_pos" where
  "corner_to_coords corner margin =
     (let c = upper corner;
          x0 = (if CHR ''E'' \<in> set c then FLOOR_HALF - margin else - (FLOOR_HALF - margin));
          z0 = (if CHR ''S'' \<in> set c \<or> CHR ''B'' \<in> set c
                then FLOOR_HALF - margin else - (FLOOR_HALF - margin));
          xz1 = (if c \<in> set [''NE'', ''EN'', ''TR'']
                 then (FLOOR_HALF - margin, - (FLOOR_HALF - margin)) else (x0, z0));
          xz2 = (if c \<in> set [''NW'', ''WN'', ''TL'']
                 then (- (FLOOR_HALF - margin), - (FLOOR_HALF - margin)) else xz1);
          xz3 = (if c \<in> set [''SE'', ''ES'', ''BR'']
                 then (FLOOR_HALF - margin, FLOOR_HALF - margin) else xz2);
          xz4 = (if c \<in> set [''SW'', ''WS'', ''BL'']
                 then (- (FLOOR_HALF - margin), FLOOR_HALF - margin) else xz3)
      in \<lparr>pos_x = fst xz4, pos_y = 0, pos_z = snd xz4\<rparr>)"

text \<open>
  The fallback of \<open>Navigator.set_goal\<close>, taken when the response of the server names no
  goal: the corner name is mapped to an alias (\<open>"NE"\<close> for an unknown name), and the alias
  is looked up in a table of literal corners. \<open>None\<close> stands for the \<open>KeyError\<close> of
  \<open>corners[alias]\<close>.
\<close>

definition mapping :: "(string \<times> string) list" where
  "mapping =
     [(''NE'', ''TR''), (''NW'', ''TL''), (''SE'', ''BR''), (''SW'', ''BL''),
      (''TR'', ''TR''), (''TL'', ''TL''), (''BR'', ''BR''), (''BL'', ''BL'')]"

definition corners :: "(string \<times> corner_pos) list" where
  "corners =
     [(''TL'', \<lparr>pos_x = -45, pos_y = 0, pos_z = 45\<rparr>),
      (''TR'', \<lparr>pos_x = 45, pos_y = 0, pos_z = 45\<rparr>),
      (''BL'', \<lparr>pos_x = -45, pos_y = 0, pos_z = -45\<rparr>),
      (''BR'', \<lparr>pos_x = 45, pos_y = 0, pos_z = -45\<rparr>),
      (''NE'', \<lparr>pos_x = 45, pos_y = 0, pos_z = 45\<rparr>),
      (''NW'', \<lparr>pos_x = -45, pos_y = 0, pos_z = 45\<rparr>),
      (''SE'', \<lparr>pos_x = 45, pos_y = 0, pos_z = -45\<rparr>),
      (''SW'', \<lparr>pos_x = -45, pos_y = 0, pos_z = -45\<rparr>)]"

definition set_goal_fallback :: "string \<Rightarrow> corner_pos option" where
  "set_goal_fallback corner =
     (let alias = (case map_of mapping corner of Some a \<Rightarrow> a | None \<Rightarrow> ''NE'')
      in map_of corners alias)"

text \<open>The eight names an episode may ask for.\<close>

definition corner_names :: "string list" where
  "corner_names = [''NE'', ''NW'', ''SE'', ''SW'', ''TR'', ''TL'', ''BR'', ''BL'']"


section \<open>Push-based planner (server.py)\<close>

datatype py_error = ZeroDivisionError | IndexError



text \<open>
  The row bounds of the scan are \<open>int(h * c)\<close> for float constants \<open>c\<close>: a product of
  doubles, rounded to the nearest double (ties to even), then truncated. A double is given
  as \<open>(m, k)\<close>, standing for \<open>m / 2 ^ k\<close>; the height is an integer below \<open>2 ^ 53\<close> and so a
  double itself.
\<close>

fun bit_length :: "nat \<Rightarrow> nat" where
  "bit_length n = (if n = 0 then 0 else Suc (bit_length (n div 2)))"

declare bit_length.simps [simp del]

definition round53 :: "nat \<Rightarrow> nat" where
  "round53 n =
     (let b = bit_length n
      in if b \<le> 53 then n
         else (let s = b - 53;
                   q = n div 2 ^ s;
                   r = n mod 2 ^ s;
                   q' = (if 2 ^ s < 2 * r \<or> (2 * r = 2 ^ s \<and> odd q) then q + 1 else q)
               in q' * 2 ^ s))"

definition int_of_product :: "nat \<Rightarrow> nat \<times> nat \<Rightarrow> nat" where
  "int_of_product h c = round53 (h * fst c) div 2 ^ snd c"

text \<open>The doubles \<open>0.45\<close>, \<open>0.70\<close> and \<open>0.92\<close>.\<close>

definition d045 :: "nat \<times> nat" where
  "d045 = (8106479329266893, 54)"

definition d070 :: "nat \<times> nat" where
  "d070 = (3152519739159347, 52)"

definition d092 :: "nat \<times> nat" where
  "d092 = (8286623314361713, 53)"











section \<open>Heading sampler (agent/vision.py)\<close>

text \<open>
  An occupancy mask: a two-dimensional array of bytes, \<open>px m r c\<close> being \<open>mask[r, c]\<close>.
\<close>

record mask =
  rows :: nat
  cols :: nat
  px :: "nat \<Rightarrow> nat \<Rightarrow> 8 word"

text \<open>
  A cost is a float that may be NaN: \<open>np.mean\<close> of an empty selection is NaN (numpy
  warns and returns it).
\<close>

datatype pyfloat = Num real | NaN

definition np_mean :: "bool list \<Rightarrow> pyfloat" where
  "np_mean bs =
     (if bs = [] then NaN else Num (real (length (filter (\<lambda>b. b) bs)) / real (length bs)))"

text \<open>\<open>np.linspace(start, stop, num)\<close> over the reals.\<close>

definition linspace :: "real \<Rightarrow> real \<Rightarrow> nat \<Rightarrow> real list" where
  "linspace start stop num =
     map (\<lambda>i. start + real i * ((stop - start) / real (num - 1))) [0..<num]"

definition deg2rad :: "real \<Rightarrow> real" where
  "deg2rad a = a * (pi / 180)"

text \<open>\<open>int(x)\<close> of a float truncates toward zero.\<close>

definition py_int :: "real \<Rightarrow> int" where
  "py_int r = (if 0 \<le> r then \<lfloor>r\<rfloor> else \<lceil>r\<rceil>)"

definition clip :: "int \<Rightarrow> int \<Rightarrow> int \<Rightarrow> int" where
  "clip a lo hi = min (max a lo) hi"

text \<open>
  Lines 26-28: the image column a heading projects to, clamped to the image. \<open>np.tan\<close> is
  a parameter: in double precision it is a finite float at every angle, also at the odd
  multiples of 90 degrees where the tangent of real numbers has no value, so no function
  of the reals stands for it there.
\<close>

definition heading_col :: "(real \<Rightarrow> real) \<Rightarrow> nat \<Rightarrow> real \<Rightarrow> int" where
  "heading_col np_tan w a =
     (let cx = w div 2;
          rad = deg2rad a;
          col = py_int (real cx + np_tan rad * (3 / 10 * real w))
      in clip col 0 (int w - 1))"

text \<open>
  \<open>sample_headings\<close>. The band is \<open>mask[h // 3 : (h // 3) * 2, :]\<close>. On a mask of width
  zero the clamped column is \<open>-1\<close> and indexing the band raises.
\<close>

definition sample_headings ::
    "(real \<Rightarrow> real) \<Rightarrow> mask \<Rightarrow> nat \<Rightarrow> real \<Rightarrow> py_error + (real \<times> pyfloat) list" where
  "sample_headings np_tan m num fov_deg =
     (let h = rows m;
          w = cols m;
          band = [h div 3 ..< (h div 3) * 2];
          angles = linspace (- fov_deg / 2) (fov_deg / 2) num
      in if w = 0 \<and> angles \<noteq> [] then Inl IndexError
         else Inr (map (\<lambda>a.
                (let col = heading_col np_tan w a;
                     col_vals = map (\<lambda>r. px m r (nat col)) band;
                     cost = np_mean (map (\<lambda>val. 0 < val) col_vals)
                 in (a, cost))) angles))"

text \<open>A cost that lies in \<open>[0, 1]\<close>; every comparison with NaN is false.\<close>

fun in_unit_interval :: "pyfloat \<Rightarrow> bool" where
  "in_unit_interval (Num r) = (0 \<le> r \<and> r \<le> 1)"
| "in_unit_interval NaN = False"

section \<open>Episode loop (agent/agent.py)\<close>

record navigator_config =
  STEP_DIST :: real
  SAFE_THR :: real
  OBS_W :: real
  GOAL_W :: real
  FOV_DEG :: real
  NUM_HEADINGS :: nat
  MAX_STEPS :: nat
  GOAL_RADIUS :: real

definition NavigatorConfig :: navigator_config where
  "NavigatorConfig =
     \<lparr>STEP_DIST = 4, SAFE_THR = 35 / 100, OBS_W = 12 / 10, GOAL_W = 6 / 10, FOV_DEG = 120,
      NUM_HEADINGS = 31, MAX_STEPS = 1200, GOAL_RADIUS = 3\<rparr>"

text \<open>
  What the simulator answers in one iteration of the loop: the capture (\<open>cap_img\<close> is
  the cost field that the vision stage, \<open>obstacle_mask\<close> then \<open>sample_headings\<close>, derives
  from the captured image, \<open>None\<close> when there is no image; \<open>cap_pos\<close> the reported
  position, \<open>None\<close> when there is none) and the value \<open>api.collisions()\<close> returns if the
  iteration asks for it. The simulator is a sequence of such answers, one per iteration.
  Transport errors, which abort the run with an exception, are outside this model.
\<close>

record sim_response =
  cap_img :: "(real \<times> real) list option"
  cap_pos :: "pydict option"
  cap_coll :: int

definition has_frame :: "sim_response \<Rightarrow> bool" where
  "has_frame r = (cap_img r \<noteq> None \<and> cap_pos r \<noteq> None)"

text \<open>The three places of the loop that call \<open>api.move_rel\<close>.\<close>

datatype call_site = Step | BackOff | Stop

text \<open>
  The variables of \<open>Navigator.run\<close>, with the list of \<open>move_rel\<close> calls made so far (each
  with the index of the iteration that made it and its place in the loop) and the number
  of iterations started.
\<close>

record run_state =
  steps :: nat
  coll_prev :: int
  total_collisions :: int
  sent :: "(nat \<times> call_site \<times> command) list"
  iter :: nat

datatype loop_exit = Continue run_state | Break run_state

text \<open>Lines 108-113: the collision check of one iteration, on the reading \<open>c\<close>.\<close>

definition collision_check :: "navigator_config \<Rightarrow> nat \<Rightarrow> int \<Rightarrow> run_state \<Rightarrow> run_state" where
  "collision_check cfg i c s =
     (if coll_prev s < c
      then s\<lparr>total_collisions := total_collisions s + (c - coll_prev s),
             coll_prev := c,
             sent := sent s @ [(i, BackOff, \<lparr>turn = 0, distance = - STEP_DIST cfg * (6 / 10)\<rparr>)]\<rparr>
      else s)"

text \<open>One iteration of the \<open>while\<close> loop, after its condition has held.\<close>

definition loop_body :: "navigator_config \<Rightarrow> goal \<Rightarrow> sim_response \<Rightarrow> run_state \<Rightarrow> loop_exit" where
  "loop_body cfg g r s =
     (let i = iter s;
          s0 = s\<lparr>iter := i + 1\<rparr>
      in case (cap_img r, cap_pos r) of
           (Some headings, Some p) \<Rightarrow>
             (let goal_bearing = goal_bearing_from_position p g;
                  ang = fst (pick_heading headings goal_bearing (OBS_W cfg) (GOAL_W cfg) (SAFE_THR cfg));
                  step = step_from_heading ang (STEP_DIST cfg);
                  s1 = s0\<lparr>sent := sent s0 @ [(i, Step, step)]\<rparr>;
                  s2 = collision_check cfg i (cap_coll r) s1
              in if close_to_goal p g (GOAL_RADIUS cfg)
                 then Break (s2\<lparr>sent := sent s2 @ [(i, Stop, \<lparr>turn = 0, distance = 0\<rparr>)]\<rparr>)
                 else Continue (s2\<lparr>steps := steps s2 + 1\<rparr>))
         | _ \<Rightarrow> Continue s0)"

text \<open>
  The loop. It need not end (the simulator may never deliver a frame), so it runs on
  fuel: one unit per test of the loop condition, \<open>None\<close> when the fuel is spent.
\<close>

fun run_loop :: "nat \<Rightarrow> navigator_config \<Rightarrow> goal \<Rightarrow> (nat \<Rightarrow> sim_response) \<Rightarrow> run_state
    \<Rightarrow> run_state option" where
  "run_loop 0 cfg g env s = None"
| "run_loop (Suc fuel) cfg g env s =
     (if steps s < MAX_STEPS cfg
      then (case loop_body cfg g (env (iter s)) s of
              Continue s' \<Rightarrow> run_loop fuel cfg g env s'
            | Break s' \<Rightarrow> Some s')
      else Some s)"

text \<open>The state in which the loop starts, \<open>collisions0\<close> being the count read before it.\<close>

definition init_state :: "int \<Rightarrow> run_state" where
  "init_state collisions0 =
     \<lparr>steps = 0, coll_prev = collisions0, total_collisions = 0, sent = [], iter = 0\<rparr>"

text \<open>\<open>Navigator.run\<close> returns \<open>(total_collisions, steps)\<close>.\<close>

definition run :: "nat \<Rightarrow> navigator_config \<Rightarrow> goal \<Rightarrow> int \<Rightarrow> (nat \<Rightarrow> sim_response)
    \<Rightarrow> (int \<times> nat) option" where
  "run fuel cfg g collisions0 env =
     map_option (\<lambda>s. (total_collisions s, steps s))
       (run_loop fuel cfg g env (init_state collisions0))"

text \<open>
  The state of an iteration that got a frame, after its step command has been sent and its
  collision check made: the part of \<open>loop_body\<close> before the goal check.
\<close>

definition after_check :: "navigator_config \<Rightarrow> goal \<Rightarrow> sim_response \<Rightarrow> run_state \<Rightarrow> run_state" where
  "after_check cfg g r s =
     collision_check cfg (iter s) (cap_coll r)
       (s\<lparr>iter := iter s + 1,
          sent := sent s @ [(iter s, Step,
            step_from_heading
              (fst (pick_heading (the (cap_img r))
                 (goal_bearing_from_position (the (cap_pos r)) g)
                 (OBS_W cfg) (GOAL_W cfg) (SAFE_THR cfg)))
              (STEP_DIST cfg))]\<rparr>)"

subsection \<open>The readings of an episode\<close>

text \<open>The iterations among \<open>a, ..., b - 1\<close> that get a frame, and what they read.\<close>

definition frame_ticks :: "(nat \<Rightarrow> sim_response) \<Rightarrow> nat \<Rightarrow> nat \<Rightarrow> nat list" where
  "frame_ticks env a b = filter (\<lambda>j. has_frame (env j)) [a..<b]"

definition readings :: "(nat \<Rightarrow> sim_response) \<Rightarrow> nat \<Rightarrow> nat \<Rightarrow> (nat \<times> int) list" where
  "readings env a b = map (\<lambda>j. (j, cap_coll (env j))) (frame_ticks env a b)"

text \<open>
  The accounting as the specification words it: the positive differences between
  consecutive readings, summed, and the ticks whose reading is above the previous one.
\<close>

fun positive_deltas :: "int \<Rightarrow> int list \<Rightarrow> int" where
  "positive_deltas prev [] = 0"
| "positive_deltas prev (c # cs) = (if prev < c then c - prev else 0) + positive_deltas c cs"

fun increase_ticks :: "int \<Rightarrow> (nat \<times> int) list \<Rightarrow> nat list" where
  "increase_ticks prev [] = []"
| "increase_ticks prev ((j, c) # cs) = (if prev < c then [j] else []) @ increase_ticks c cs"

text \<open>The ticks at which a call from a given place of the loop was made.\<close>

definition ticks_of :: "call_site \<Rightarrow> (nat \<times> call_site \<times> command) list \<Rightarrow> nat list" where
  "ticks_of k calls = map fst (filter (\<lambda>e. fst (snd e) = k) calls)"

definition commands_of :: "call_site \<Rightarrow> (nat \<times> call_site \<times> command) list \<Rightarrow> command list" where
  "commands_of k calls = map (\<lambda>e. snd (snd e)) (filter (\<lambda>e. fst (snd e) = k) calls)"


subsection \<open>Sample inputs\<close>




text \<open>A mask of two rows and one column, with no pixel set: too low to have a band.\<close>

definition tiny_mask :: mask where
  "tiny_mask = \<lparr>rows = 2, cols = 1, px = (\<lambda>r c. 0)\<rparr>"

text \<open>
  Goals and simulators for the episode loop: a robot that is reported at the origin on
  every frame and reads a fixed sequence of collision counts, and a simulator whose every
  second capture fails.
\<close>

definition far_goal :: goal where
  "far_goal = \<lparr>goal_x = 45, goal_y = 0, goal_z = 45\<rparr>"

definition near_goal :: goal where
  "near_goal = \<lparr>goal_x = 1, goal_y = 0, goal_z = 1\<rparr>"

text \<open>The cost field of a frame with no obstacle: 31 headings over 120 degrees, all of cost 0.\<close>

definition clear_field :: "(real \<times> real) list" where
  "clear_field = map (\<lambda>i. (- 60 + 4 * real i, 0)) [0..<31]"

definition frame_at_origin :: "int \<Rightarrow> sim_response" where
  "frame_at_origin c =
     \<lparr>cap_img = Some clear_field,
      cap_pos = Some [''x'' \<mapsto> 0, ''y'' \<mapsto> 0, ''z'' \<mapsto> 0], cap_coll = c\<rparr>"

definition no_frame :: sim_response where
  "no_frame = \<lparr>cap_img = None, cap_pos = None, cap_coll = 0\<rparr>"

definition six_readings_env :: "nat \<Rightarrow> sim_response" where
  "six_readings_env j = frame_at_origin ([0, 0, 1, 1, 3, 3] ! min j 5)"

definition dip_env :: "nat \<Rightarrow> sim_response" where
  "dip_env j = frame_at_origin ([2, 1, 2] ! min j 2)"

definition alternating_env :: "nat \<Rightarrow> sim_response" where
  "alternating_env j = (if even j then frame_at_origin 0 else no_frame)"

definition steady_env :: "nat \<Rightarrow> sim_response" where
  "steady_env j = frame_at_origin 0"

section \<open>Properties of the planner\<close>

subsection \<open>What one scan of the field computes\<close>

lemma safe_pass_le:
  "safe_pass g ow gw thr xs (a, c) = (a', c') \<Longrightarrow> below s c' \<Longrightarrow> below s c"
proof (induction xs arbitrary: a c)
  case Nil then show ?case by simp
next
  case (Cons x xs)
  obtain ang oc where x: "x = (ang, oc)" by (cases x)
  show ?case
  proof (cases "oc < thr \<and> below (score_of g ow gw (ang, oc)) c")
    case True
    with Cons.prems x have "safe_pass g ow gw thr xs (ang, Fin (score_of g ow gw (ang, oc))) = (a', c')"
      by simp
    from Cons.IH[OF this Cons.prems(2)] have "s < score_of g ow gw (ang, oc)" by simp
    with True show ?thesis by (cases c) auto
  next
    case False
    with Cons.prems x have "safe_pass g ow gw thr xs (a, c) = (a', c')"
      by (simp add: Let_def)
    from Cons.IH[OF this Cons.prems(2)] show ?thesis .
  qed
qed

lemma safe_pass_lower:
  "safe_pass g ow gw thr xs (a, c) = (a', c') \<Longrightarrow> e \<in> set xs \<Longrightarrow> snd e < thr
     \<Longrightarrow> \<not> below (score_of g ow gw e) c'"
proof (induction xs arbitrary: a c)
  case Nil then show ?case by simp
next
  case (Cons x xs)
  obtain ang oc where x: "x = (ang, oc)" by (cases x)
  let ?s = "score_of g ow gw (ang, oc)"
  show ?case
  proof (cases "oc < thr \<and> below ?s c")
    case True
    with Cons.prems x have run: "safe_pass g ow gw thr xs (ang, Fin ?s) = (a', c')"
      by simp
    show ?thesis
    proof (cases "e = x")
      case True
      have "\<not> below ?s (Fin ?s)" by simp
      with safe_pass_le[OF run] have "\<not> below ?s c'" by blast
      with True x show ?thesis by simp
    next
      case False
      with Cons.prems have "e \<in> set xs" by simp
      from Cons.IH[OF run this Cons.prems(3)] show ?thesis .
    qed
  next
    case False
    with Cons.prems x have run: "safe_pass g ow gw thr xs (a, c) = (a', c')"
      by (simp add: Let_def)
    show ?thesis
    proof (cases "e = x")
      case True
      with Cons.prems x have "oc < thr" by simp
      with False have "\<not> below ?s c" by simp
      with safe_pass_le[OF run] have "\<not> below ?s c'" by blast
      with True x show ?thesis by simp
    next
      case False
      with Cons.prems have "e \<in> set xs" by simp
      from Cons.IH[OF run this Cons.prems(3)] show ?thesis .
    qed
  qed
qed

lemma safe_pass_origin:
  "safe_pass g ow gw thr xs (a, c) = (a', c') \<Longrightarrow>
     ((a', c') = (a, c) \<and> (\<forall>e\<in>set xs. snd e < thr \<longrightarrow> \<not> below (score_of g ow gw e) c))
   \<or> (\<exists>i<length xs. snd (xs ! i) < thr \<and> a' = fst (xs ! i)
          \<and> c' = Fin (score_of g ow gw (xs ! i)) \<and> below (score_of g ow gw (xs ! i)) c
          \<and> (\<forall>j<i. snd (xs ! j) < thr \<longrightarrow> score_of g ow gw (xs ! i) < score_of g ow gw (xs ! j)))"
proof (induction xs arbitrary: a c)
  case Nil then show ?case by simp
next
  case (Cons x xs)
  obtain ang oc where x: "x = (ang, oc)" by (cases x)
  let ?sc = "score_of g ow gw"
  let ?s = "?sc (ang, oc)"
  show ?case
  proof (cases "oc < thr \<and> below ?s c")
    case True
    with Cons.prems x have run: "safe_pass g ow gw thr xs (ang, Fin ?s) = (a', c')"
      by simp
    from Cons.IH[OF run] show ?thesis
    proof
      assume "(a', c') = (ang, Fin ?s) \<and> (\<forall>e\<in>set xs. snd e < thr \<longrightarrow> \<not> below (?sc e) (Fin ?s))"
      with True x have "0 < length (x # xs) \<and> snd ((x # xs) ! 0) < thr \<and> a' = fst ((x # xs) ! 0)
          \<and> c' = Fin (?sc ((x # xs) ! 0)) \<and> below (?sc ((x # xs) ! 0)) c
          \<and> (\<forall>j<0. snd ((x # xs) ! j) < thr \<longrightarrow> ?sc ((x # xs) ! 0) < ?sc ((x # xs) ! j))"
        by simp
      then show ?thesis by blast
    next
      assume "\<exists>i<length xs. snd (xs ! i) < thr \<and> a' = fst (xs ! i)
          \<and> c' = Fin (?sc (xs ! i)) \<and> below (?sc (xs ! i)) (Fin ?s)
          \<and> (\<forall>j<i. snd (xs ! j) < thr \<longrightarrow> ?sc (xs ! i) < ?sc (xs ! j))"
      then obtain i where i: "i < length xs" "snd (xs ! i) < thr" "a' = fst (xs ! i)"
          "c' = Fin (?sc (xs ! i))" "?sc (xs ! i) < ?s"
          "\<forall>j<i. snd (xs ! j) < thr \<longrightarrow> ?sc (xs ! i) < ?sc (xs ! j)"
        by auto
      from i(5) True have bel: "below (?sc (xs ! i)) c" by (cases c) auto
      have early: "\<forall>j<Suc i. snd ((x # xs) ! j) < thr \<longrightarrow> ?sc (xs ! i) < ?sc ((x # xs) ! j)"
      proof (intro allI impI)
        fix j assume "j < Suc i" "snd ((x # xs) ! j) < thr"
        then show "?sc (xs ! i) < ?sc ((x # xs) ! j)"
          using i(5) i(6) x by (cases j) auto
      qed
      from i bel early have "Suc i < length (x # xs) \<and> snd ((x # xs) ! Suc i) < thr
          \<and> a' = fst ((x # xs) ! Suc i) \<and> c' = Fin (?sc ((x # xs) ! Suc i))
          \<and> below (?sc ((x # xs) ! Suc i)) c
          \<and> (\<forall>j<Suc i. snd ((x # xs) ! j) < thr \<longrightarrow> ?sc ((x # xs) ! Suc i) < ?sc ((x # xs) ! j))"
        by simp
      then show ?thesis by blast
    qed
  next
    case False
    with Cons.prems x have run: "safe_pass g ow gw thr xs (a, c) = (a', c')"
      by (simp add: Let_def)
    from Cons.IH[OF run] show ?thesis
    proof
      assume "(a', c') = (a, c) \<and> (\<forall>e\<in>set xs. snd e < thr \<longrightarrow> \<not> below (?sc e) c)"
      with False x show ?thesis by auto
    next
      assume "\<exists>i<length xs. snd (xs ! i) < thr \<and> a' = fst (xs ! i)
          \<and> c' = Fin (?sc (xs ! i)) \<and> below (?sc (xs ! i)) c
          \<and> (\<forall>j<i. snd (xs ! j) < thr \<longrightarrow> ?sc (xs ! i) < ?sc (xs ! j))"
      then obtain i where i: "i < length xs" "snd (xs ! i) < thr" "a' = fst (xs ! i)"
          "c' = Fin (?sc (xs ! i))" "below (?sc (xs ! i)) c"
          "\<forall>j<i. snd (xs ! j) < thr \<longrightarrow> ?sc (xs ! i) < ?sc (xs ! j)"
        by auto
      have early: "\<forall>j<Suc i. snd ((x # xs) ! j) < thr \<longrightarrow> ?sc (xs ! i) < ?sc ((x # xs) ! j)"
      proof (intro allI impI)
        fix j assume j: "j < Suc i" "snd ((x # xs) ! j) < thr"
        show "?sc (xs ! i) < ?sc ((x # xs) ! j)"
        proof (cases j)
          case 0
          with j x have "oc < thr" by simp
          with False have "\<not> below ?s c" by simp
          with i(5) have "?sc (xs ! i) < ?s" by (cases c) auto
          with 0 x show ?thesis by simp
        next
          case (Suc k)
          with j i(6) show ?thesis by simp
        qed
      qed
      from i early have "Suc i < length (x # xs) \<and> snd ((x # xs) ! Suc i) < thr
          \<and> a' = fst ((x # xs) ! Suc i) \<and> c' = Fin (?sc ((x # xs) ! Suc i))
          \<and> below (?sc ((x # xs) ! Suc i)) c
          \<and> (\<forall>j<Suc i. snd ((x # xs) ! j) < thr \<longrightarrow> ?sc ((x # xs) ! Suc i) < ?sc ((x # xs) ! j))"
        by simp
      then show ?thesis by blast
    qed
  qed
qed



lemma pick_heading_safe_index:
  assumes "\<exists>e\<in>set hc. snd e < thr"
  shows "\<exists>i<length hc. snd (hc ! i) < thr
           \<and> pick_heading hc g ow gw thr = (fst (hc ! i), Fin (score_of g ow gw (hc ! i)))
           \<and> (\<forall>e\<in>set hc. snd e < thr \<longrightarrow> score_of g ow gw (hc ! i) \<le> score_of g ow gw e)
           \<and> (\<forall>j<i. snd (hc ! j) < thr \<longrightarrow> score_of g ow gw (hc ! i) < score_of g ow gw (hc ! j))"
proof -
  obtain a' c' where run: "safe_pass g ow gw thr hc (0, PosInf) = (a', c')"
    by (cases "safe_pass g ow gw thr hc (0, PosInf)")
  from assms have "\<not> (\<forall>e\<in>set hc. snd e < thr \<longrightarrow> \<not> below (score_of g ow gw e) PosInf)"
    by simp
  with safe_pass_origin[OF run] obtain i where i: "i < length hc" "snd (hc ! i) < thr"
      "a' = fst (hc ! i)" "c' = Fin (score_of g ow gw (hc ! i))"
      "\<forall>j<i. snd (hc ! j) < thr \<longrightarrow> score_of g ow gw (hc ! i) < score_of g ow gw (hc ! j)"
    by blast
  from run i have pick: "pick_heading hc g ow gw thr = (fst (hc ! i), Fin (score_of g ow gw (hc ! i)))"
    by (simp add: pick_heading_def)
  have low: "\<forall>e\<in>set hc. snd e < thr \<longrightarrow> score_of g ow gw (hc ! i) \<le> score_of g ow gw e"
  proof (intro ballI impI)
    fix e assume "e \<in> set hc" "snd e < thr"
    from safe_pass_lower[OF run this] i(4) show "score_of g ow gw (hc ! i) \<le> score_of g ow gw e"
      by simp
  qed
  from i pick low show ?thesis by blast
qed




text \<open>
  C10. On the empty cost field \<open>pick_heading\<close> returns angle \<open>0.0\<close> and score
  \<open>float("inf")\<close>, whatever the goal bearing, the weights and the threshold are.
\<close>

theorem pick_heading_empty:
  "pick_heading [] goal_angle_deg obs_w goal_w safe_thr = (0, PosInf)"
  by (simp add: pick_heading_def)

text \<open>
  C1. When some entry of the cost field has a cost strictly below the safety threshold,
  \<open>pick_heading\<close> returns the angle of an entry whose cost is strictly below the
  threshold, and the score \<open>obs_w * cost + goal_w * |angle - goal| / 60\<close> of that entry is
  the least among the entries below the threshold.
\<close>

theorem pick_heading_safe_minimum:
  assumes "\<exists>(ang, oc)\<in>set heading_costs. oc < safe_thr"
  shows "\<exists>(ang, oc)\<in>set heading_costs. oc < safe_thr
           \<and> pick_heading heading_costs goal_angle_deg obs_w goal_w safe_thr
               = (ang, Fin (obs_w * oc + goal_w * (\<bar>ang - goal_angle_deg\<bar> / 60)))
           \<and> (\<forall>(ang', oc')\<in>set heading_costs. oc' < safe_thr \<longrightarrow>
                 obs_w * oc + goal_w * (\<bar>ang - goal_angle_deg\<bar> / 60)
                   \<le> obs_w * oc' + goal_w * (\<bar>ang' - goal_angle_deg\<bar> / 60))"
proof -
  from assms have "\<exists>e\<in>set heading_costs. snd e < safe_thr" by (simp add: case_prod_beta)
  from pick_heading_safe_index[OF this, of goal_angle_deg obs_w goal_w]
  obtain i where i: "i < length heading_costs" "snd (heading_costs ! i) < safe_thr"
      "pick_heading heading_costs goal_angle_deg obs_w goal_w safe_thr
         = (fst (heading_costs ! i), Fin (score_of goal_angle_deg obs_w goal_w (heading_costs ! i)))"
      "\<forall>e\<in>set heading_costs. snd e < safe_thr \<longrightarrow>
         score_of goal_angle_deg obs_w goal_w (heading_costs ! i) \<le> score_of goal_angle_deg obs_w goal_w e"
    by blast
  obtain ang oc where e: "heading_costs ! i = (ang, oc)" by (cases "heading_costs ! i")
  from i(1) e have mem: "(ang, oc) \<in> set heading_costs" by (metis nth_mem)
  from i(2) e have safe: "oc < safe_thr" by simp
  from i(3) e have pick: "pick_heading heading_costs goal_angle_deg obs_w goal_w safe_thr
               = (ang, Fin (obs_w * oc + goal_w * (\<bar>ang - goal_angle_deg\<bar> / 60)))"
    by (simp add: score_of_def)
  have low: "\<forall>(ang', oc')\<in>set heading_costs. oc' < safe_thr \<longrightarrow>
                 obs_w * oc + goal_w * (\<bar>ang - goal_angle_deg\<bar> / 60)
                   \<le> obs_w * oc' + goal_w * (\<bar>ang' - goal_angle_deg\<bar> / 60)"
  proof (clarify)
    fix a' c' assume "(a', c') \<in> set heading_costs" "c' < safe_thr"
    with i(4) e have "score_of goal_angle_deg obs_w goal_w (ang, oc)
        \<le> score_of goal_angle_deg obs_w goal_w (a', c')" by fastforce
    then show "obs_w * oc + goal_w * (\<bar>ang - goal_angle_deg\<bar> / 60)
                   \<le> obs_w * c' + goal_w * (\<bar>a' - goal_angle_deg\<bar> / 60)"
      by (simp add: score_of_def)
  qed
  from mem safe pick low show ?thesis by blast
qed

theorem pick_heading_safe_minimum_witness:
  "(\<exists>(ang, oc)\<in>set [(-10 :: real, 1/2), (0, 1/10), (10, 1/5 :: real)]. oc < 7/20)
   \<and> (\<exists>(ang, oc)\<in>set [(-10, 1/2), (0, 1/10), (10, 1/5)]. oc < 7/20
         \<and> pick_heading [(-10, 1/2), (0, 1/10), (10, 1/5)] 10 (6/5) (3/5) (7/20)
               = (ang, Fin (6/5 * oc + 3/5 * (\<bar>ang - 10\<bar> / 60)))
         \<and> (\<forall>(ang', oc')\<in>set [(-10, 1/2), (0, 1/10), (10, 1/5)]. oc' < 7/20 \<longrightarrow>
                 6/5 * oc + 3/5 * (\<bar>ang - 10\<bar> / 60)
                   \<le> 6/5 * oc' + 3/5 * (\<bar>ang' - 10\<bar> / 60)))"
proof -
  have h: "\<exists>(ang, oc)\<in>set [(-10 :: real, 1/2), (0, 1/10), (10, 1/5 :: real)]. oc < 7/20"
    by simp
  from pick_heading_safe_minimum[OF h, of 10 "6/5" "3/5"] h show ?thesis by blast
qed




section \<open>Properties of the goal bearing\<close>

lemma dict_get_translate_pos:
  "dict_get (translate_pos pos (tx, ty, tz)) ''x'' 0 = dict_get pos ''x'' 0 + tx"
  "dict_get (translate_pos pos (tx, ty, tz)) ''z'' 0 = dict_get pos ''z'' 0 + tz"
  by (simp_all add: translate_pos_def dict_get_def)

text \<open>
  C9. The bearing does not change when the pose and the goal are moved by the same
  vector, and it is \<open>0\<close> when the goal has the \<open>x\<close> of the pose and a strictly greater \<open>z\<close>.
\<close>

theorem goal_bearing_translation_invariant:
  "goal_bearing_from_position (translate_pos pos t) (translate_goal g t)
     = goal_bearing_from_position pos g
   \<and> (dict_get pos ''x'' 0 = goal_x g \<and> dict_get pos ''z'' 0 < goal_z g
        \<longrightarrow> goal_bearing_from_position pos g = 0)"
proof (intro conjI impI)
  obtain tx ty tz where t: "t = (tx, ty, tz)" by (cases t)
  have "goal_x (translate_goal g t) - dict_get (translate_pos pos t) ''x'' 0
          = goal_x g - dict_get pos ''x'' 0"
    and "goal_z (translate_goal g t) - dict_get (translate_pos pos t) ''z'' 0
          = goal_z g - dict_get pos ''z'' 0"
    by (simp_all add: t dict_get_translate_pos translate_goal_def)
  then show "goal_bearing_from_position (translate_pos pos t) (translate_goal g t)
     = goal_bearing_from_position pos g"
    by (simp add: goal_bearing_from_position_def)
next
  assume "dict_get pos ''x'' 0 = goal_x g \<and> dict_get pos ''z'' 0 < goal_z g"
  then have "goal_x g - dict_get pos ''x'' 0 = 0" "0 < goal_z g - dict_get pos ''z'' 0"
    by simp_all
  then show "goal_bearing_from_position pos g = 0"
    by (simp add: goal_bearing_from_position_def atan2_def degrees_def)
qed

theorem goal_bearing_translation_invariant_witness:
  "dict_get [''x'' \<mapsto> 1, ''z'' \<mapsto> 2] ''x'' 0 = goal_x \<lparr>goal_x = 1, goal_y = 0, goal_z = 5\<rparr>
   \<and> dict_get [''x'' \<mapsto> 1, ''z'' \<mapsto> 2] ''z'' 0 < goal_z \<lparr>goal_x = 1, goal_y = 0, goal_z = 5\<rparr>
   \<and> goal_bearing_from_position [''x'' \<mapsto> 1, ''z'' \<mapsto> 2] \<lparr>goal_x = 1, goal_y = 0, goal_z = 5\<rparr> = 0
   \<and> goal_bearing_from_position (translate_pos [''x'' \<mapsto> 1, ''z'' \<mapsto> 2] (3, 0, -4))
        (translate_goal \<lparr>goal_x = 1, goal_y = 0, goal_z = 5\<rparr> (3, 0, -4)) = 0"
proof -
  have h: "dict_get [''x'' \<mapsto> 1, ''z'' \<mapsto> 2] ''x'' 0 = goal_x \<lparr>goal_x = 1, goal_y = 0, goal_z = 5\<rparr>
     \<and> dict_get [''x'' \<mapsto> 1, ''z'' \<mapsto> 2] ''z'' 0 < goal_z \<lparr>goal_x = 1, goal_y = 0, goal_z = 5\<rparr>"
    by (simp add: dict_get_def)
  from goal_bearing_translation_invariant
    [of "[''x'' \<mapsto> 1, ''z'' \<mapsto> 2]" "(3, 0, -4)" "\<lparr>goal_x = 1, goal_y = 0, goal_z = 5\<rparr>"] h
  show ?thesis by simp
qed

section \<open>Properties of the corner tables\<close>

text \<open>
  C3. The server's \<open>corner_to_coords\<close> and the fallback table of \<open>Navigator.set_goal\<close> do
  not give the same coordinates: for \<open>"NE"\<close> the server answers \<open>z = -45\<close> and the
  fallback \<open>z = 45\<close>, and for each of the eight names the two agree on \<open>x\<close> and give
  opposite, different \<open>z\<close>.
\<close>

theorem corner_tables_disagree:
  "corner_to_coords ''NE'' 5 = \<lparr>pos_x = 45, pos_y = 0, pos_z = - 45\<rparr>
   \<and> set_goal_fallback ''NE'' = Some \<lparr>pos_x = 45, pos_y = 0, pos_z = 45\<rparr>
   \<and> list_all (\<lambda>c. \<exists>p. set_goal_fallback c = Some p
          \<and> pos_x p = pos_x (corner_to_coords c 5)
          \<and> pos_z p = - pos_z (corner_to_coords c 5)
          \<and> pos_z p \<noteq> pos_z (corner_to_coords c 5)) corner_names"
  by (simp add: corner_names_def set_goal_fallback_def mapping_def corners_def
      corner_to_coords_def upper_def upper_char_def FLOOR_HALF_def)

section \<open>Properties of the push-based planner\<close>

subsection \<open>The row bounds and the near count\<close>

lemma bit_length_0: "bit_length 0 = 0"
  by (simp add: bit_length.simps)

lemma bit_length_1: "bit_length (Suc 0) = Suc 0"
  by (simp add: bit_length.simps)

lemma bit_length_numeral: "bit_length (numeral n) = Suc (bit_length (numeral n div 2))"
  by (subst bit_length.simps) simp

lemmas bit_length_eval = bit_length_0 bit_length_1 bit_length_numeral


lemma bounds90: "int_of_product 90 d070 = 62"
  by (simp_all add: int_of_product_def round53_def d045_def d070_def d092_def bit_length_eval Let_def)











subsection \<open>The near-field check\<close>







section \<open>Properties of the heading sampler\<close>

lemma length_linspace: "length (linspace a b n) = n"
  by (simp add: linspace_def)

lemma nth_linspace: "i < n \<Longrightarrow> linspace a b n ! i = a + real i * ((b - a) / real (n - 1))"
  by (simp add: linspace_def)

lemma linspace_increasing:
  assumes "a < b" "2 \<le> n"
  shows "sorted_wrt (<) (linspace a b n)"
proof -
  from assms have d: "0 < (b - a) / real (n - 1)" by simp
  have "\<And>i j. i < j \<Longrightarrow> j < n \<Longrightarrow> linspace a b n ! i < linspace a b n ! j"
  proof -
    fix i j :: nat assume ij: "i < j" "j < n"
    then have "real i < real j" by simp
    then have "real i * ((b - a) / real (n - 1)) < real j * ((b - a) / real (n - 1))"
      using d by (rule mult_strict_right_mono)
    with ij show "linspace a b n ! i < linspace a b n ! j"
      by (simp add: nth_linspace)
  qed
  then show ?thesis
    by (simp add: sorted_wrt_iff_nth_less length_linspace)
qed

lemma linspace_bounds:
  assumes "a \<le> b" "2 \<le> n" "v \<in> set (linspace a b n)"
  shows "a \<le> v \<and> v \<le> b"
proof -
  from assms(3) obtain i where i: "i < n" "v = a + real i * ((b - a) / real (n - 1))"
    by (auto simp: in_set_conv_nth length_linspace nth_linspace)
  from assms have d: "0 \<le> (b - a) / real (n - 1)" by simp
  from i(1) assms(2) have "real i \<le> real (n - 1)" by simp
  then have "real i * ((b - a) / real (n - 1)) \<le> real (n - 1) * ((b - a) / real (n - 1))"
    using d by (rule mult_right_mono)
  also from assms(2) have "\<dots> = b - a" by simp
  finally have up: "real i * ((b - a) / real (n - 1)) \<le> b - a" .
  have "0 \<le> real i" by simp
  then have "0 \<le> real i * ((b - a) / real (n - 1))" using d by (rule mult_nonneg_nonneg)
  with up i(2) show ?thesis by simp
qed

lemma heading_col_range: "0 < w \<Longrightarrow> 0 \<le> heading_col np_tan w a \<and> heading_col np_tan w a < int w"
  by (simp add: heading_col_def clip_def Let_def)

lemma np_mean_unit: "bs \<noteq> [] \<Longrightarrow> in_unit_interval (np_mean bs)"
proof -
  assume ne: "bs \<noteq> []"
  have "length (filter (\<lambda>b. b) bs) \<le> length bs" by (rule length_filter_le)
  then have "real (length (filter (\<lambda>b. b) bs)) / real (length bs) \<le> 1"
    using ne by simp
  with ne show ?thesis by (simp add: np_mean_def)
qed

lemma band_fraction:
  "length (filter (\<lambda>b. b) (map (\<lambda>val. 0 < val) (map (\<lambda>r. px m r k) [lo..<hi])))
     = card {r. lo \<le> r \<and> r < hi \<and> px m r k \<noteq> 0}"
proof -
  have "length (filter (\<lambda>b. b) (map (\<lambda>val. 0 < val) (map (\<lambda>r. px m r k) [lo..<hi])))
      = length (filter (\<lambda>r. px m r k \<noteq> 0) [lo..<hi])"
    by (simp add: filter_map comp_def word_neq_0_conv)
  also have "\<dots> = card ({r. px m r k \<noteq> 0} \<inter> set [lo..<hi])"
    by (rule distinct_length_filter) simp
  also have "{r. px m r k \<noteq> 0} \<inter> set [lo..<hi] = {r. lo \<le> r \<and> r < hi \<and> px m r k \<noteq> 0}"
    by auto
  finally show ?thesis .
qed


text \<open>
  On a mask whose band is not empty (height at least \<open>3\<close>) and of positive width, with at
  least two headings and a positive field of view, the sampler returns \<open>num\<close> pairs with
  strictly increasing angles in \<open>[-fov/2, +fov/2]\<close> and costs in \<open>[0, 1]\<close>, each the fraction
  of nonzero pixels of the heading's clamped column among the rows of the band.
\<close>

lemma sample_headings_on_band:
  assumes "3 \<le> rows m" "0 < cols m" "2 \<le> num" "0 < fov_deg"
  shows "\<exists>res. sample_headings np_tan m num fov_deg = Inr res
           \<and> length res = num
           \<and> sorted_wrt (<) (map fst res)
           \<and> (\<forall>(a, cost)\<in>set res.
                 - fov_deg / 2 \<le> a \<and> a \<le> fov_deg / 2
               \<and> in_unit_interval cost
               \<and> 0 \<le> heading_col np_tan (cols m) a \<and> heading_col np_tan (cols m) a < int (cols m)
               \<and> cost = Num (real (card {r. rows m div 3 \<le> r \<and> r < rows m div 3 * 2
                                          \<and> px m r (nat (heading_col np_tan (cols m) a)) \<noteq> 0})
                              / real (rows m div 3)))"
proof -
  define angles where "angles = linspace (- fov_deg / 2) (fov_deg / 2) num"
  define band where "band = [rows m div 3 ..< rows m div 3 * 2]"
  define entry where "entry = (\<lambda>a. (a, np_mean (map (\<lambda>val. 0 < val)
      (map (\<lambda>r. px m r (nat (heading_col np_tan (cols m) a))) band))))"
  define res where "res = map entry angles"
  from assms(2) have run: "sample_headings np_tan m num fov_deg = Inr res"
    by (simp add: sample_headings_def res_def entry_def angles_def band_def Let_def)
  have len: "length res = num"
    by (simp add: res_def angles_def length_linspace)
  have fsts: "map fst res = angles"
    by (simp add: res_def entry_def comp_def)
  from assms(4) have "- fov_deg / 2 < fov_deg / 2" by simp
  from linspace_increasing[OF this assms(3)] have srt: "sorted_wrt (<) (map fst res)"
    by (simp add: fsts angles_def)
  from assms(1) have h3: "0 < rows m div 3" by simp
  then have blen: "length band = rows m div 3" and bne: "band \<noteq> []"
    by (simp_all add: band_def)
  define P where "P = (\<lambda>a cost.
                 - fov_deg / 2 \<le> a \<and> a \<le> fov_deg / 2
               \<and> in_unit_interval cost
               \<and> 0 \<le> heading_col np_tan (cols m) a \<and> heading_col np_tan (cols m) a < int (cols m)
               \<and> cost = Num (real (card {r. rows m div 3 \<le> r \<and> r < rows m div 3 * 2
                                          \<and> px m r (nat (heading_col np_tan (cols m) a)) \<noteq> 0})
                              / real (rows m div 3)))"
  have one: "P a cost" if mem: "(a, cost) \<in> set res" for a cost
  proof -
    from mem have a: "a \<in> set angles" and cost: "cost = snd (entry a)"
      by (auto simp: res_def entry_def)
    from assms(4) have "- fov_deg / 2 \<le> fov_deg / 2" by simp
    from linspace_bounds[OF this assms(3)] a
    have rng: "- fov_deg / 2 \<le> a \<and> a \<le> fov_deg / 2"
      by (simp add: angles_def)
    let ?bs = "map (\<lambda>val. 0 < val) (map (\<lambda>r. px m r (nat (heading_col np_tan (cols m) a))) band)"
    from bne have ne: "?bs \<noteq> []" by simp
    from np_mean_unit[OF ne] cost have unit: "in_unit_interval cost"
      by (simp add: entry_def)
    have "cost = Num (real (length (filter (\<lambda>b. b) ?bs)) / real (length ?bs))"
      using ne cost by (simp add: entry_def np_mean_def)
    also have "length ?bs = rows m div 3" using blen by simp
    also have "length (filter (\<lambda>b. b) ?bs)
        = card {r. rows m div 3 \<le> r \<and> r < rows m div 3 * 2
               \<and> px m r (nat (heading_col np_tan (cols m) a)) \<noteq> 0}"
      unfolding band_def by (rule band_fraction)
    finally have frac: "cost = Num (real (card {r. rows m div 3 \<le> r \<and> r < rows m div 3 * 2
                                          \<and> px m r (nat (heading_col np_tan (cols m) a)) \<noteq> 0})
                              / real (rows m div 3))" .
    from rng unit heading_col_range[OF assms(2), of np_tan a] frac
    show ?thesis unfolding P_def by simp
  qed
  then have each: "\<forall>(a, cost)\<in>set res. P a cost" by auto
  from run len srt each show ?thesis unfolding P_def by blast
qed

text \<open>
  C8. The claim, and the comment of \<open>sample_headings\<close> (costs in \<open>[0..1]\<close>), fail on a mask of
  positive height below \<open>3\<close>: its band \<open>mask[h // 3 : (h // 3) * 2]\<close> has no row, and the cost
  of every heading is the mean of nothing, NaN, which is not in \<open>[0, 1]\<close>. Here the mask has
  two rows and one column, with two headings over 120 degrees.
\<close>

theorem sample_headings_tiny_mask:
  "0 < rows tiny_mask \<and> 0 < cols tiny_mask \<and> (2 :: nat) \<le> 2 \<and> (0 :: real) < 120
   \<and> sample_headings np_tan tiny_mask 2 120 = Inr [(- 60, NaN), (60, NaN)]
   \<and> \<not> in_unit_interval NaN"
  by (simp add: tiny_mask_def sample_headings_def linspace_def np_mean_def upt_rec)

section \<open>Properties of the episode loop\<close>

subsection \<open>One iteration\<close>

lemma loop_body_no_frame:
  "\<not> has_frame r \<Longrightarrow> loop_body cfg g r s = Continue (s\<lparr>iter := iter s + 1\<rparr>)"
  by (auto simp: has_frame_def loop_body_def Let_def split: option.splits)

lemma collision_check_fields:
  "steps (collision_check cfg i c s) = steps s"
  "iter (collision_check cfg i c s) = iter s"
  "coll_prev (collision_check cfg i c s) = max (coll_prev s) c"
  "total_collisions (collision_check cfg i c s)
     = total_collisions s + (if coll_prev s < c then c - coll_prev s else 0)"
  "sent (collision_check cfg i c s)
     = sent s @ (if coll_prev s < c
                 then [(i, BackOff, \<lparr>turn = 0, distance = - STEP_DIST cfg * (6 / 10)\<rparr>)] else [])"
  by (simp_all add: collision_check_def)

lemma loop_body_frame:
  assumes "has_frame r"
  shows "loop_body cfg g r s =
     (if close_to_goal (the (cap_pos r)) g (GOAL_RADIUS cfg)
      then Break ((after_check cfg g r s)
             \<lparr>sent := sent (after_check cfg g r s) @ [(iter s, Stop, \<lparr>turn = 0, distance = 0\<rparr>)]\<rparr>)
      else Continue ((after_check cfg g r s)\<lparr>steps := steps (after_check cfg g r s) + 1\<rparr>))"
  using assms
  by (auto simp: has_frame_def loop_body_def after_check_def Let_def)

lemma after_check_fields:
  "steps (after_check cfg g r s) = steps s"
  "iter (after_check cfg g r s) = iter s + 1"
  "coll_prev (after_check cfg g r s) = max (coll_prev s) (cap_coll r)"
  "total_collisions (after_check cfg g r s)
     = total_collisions s + (if coll_prev s < cap_coll r then cap_coll r - coll_prev s else 0)"
  by (simp_all add: after_check_def collision_check_fields)

lemma after_check_sent:
  "\<exists>c. sent (after_check cfg g r s)
     = sent s @ (iter s, Step, c)
         # (if coll_prev s < cap_coll r
            then [(iter s, BackOff, \<lparr>turn = 0, distance = - STEP_DIST cfg * (6 / 10)\<rparr>)] else [])"
  by (simp add: after_check_def collision_check_fields)

subsection \<open>The whole run\<close>

lemma frame_ticks_empty: "frame_ticks env a a = []"
  by (simp add: frame_ticks_def)

lemma frame_ticks_step:
  "a < b \<Longrightarrow> frame_ticks env a b
     = (if has_frame (env a) then [a] else []) @ frame_ticks env (Suc a) b"
  by (simp add: frame_ticks_def upt_conv_Cons)

lemma readings_empty: "readings env a a = []"
  by (simp add: readings_def frame_ticks_empty)

lemma readings_step:
  "a < b \<Longrightarrow> readings env a b
     = (if has_frame (env a) then [(a, cap_coll (env a))] else []) @ readings env (Suc a) b"
  by (simp add: readings_def frame_ticks_step)

lemma run_loop_cases:
  assumes "run_loop (Suc fuel) cfg g env s = Some s'"
  obtains
    (limit) "\<not> steps s < MAX_STEPS cfg" "s' = s"
  | (retry) "steps s < MAX_STEPS cfg" "\<not> has_frame (env (iter s))"
      "run_loop fuel cfg g env (s\<lparr>iter := iter s + 1\<rparr>) = Some s'"
  | (goal) "steps s < MAX_STEPS cfg" "has_frame (env (iter s))"
      "close_to_goal (the (cap_pos (env (iter s)))) g (GOAL_RADIUS cfg)"
      "s' = (after_check cfg g (env (iter s)) s)
         \<lparr>sent := sent (after_check cfg g (env (iter s)) s)
                   @ [(iter s, Stop, \<lparr>turn = 0, distance = 0\<rparr>)]\<rparr>"
  | (step) "steps s < MAX_STEPS cfg" "has_frame (env (iter s))"
      "\<not> close_to_goal (the (cap_pos (env (iter s)))) g (GOAL_RADIUS cfg)"
      "run_loop fuel cfg g env
         ((after_check cfg g (env (iter s)) s)
            \<lparr>steps := steps (after_check cfg g (env (iter s)) s) + 1\<rparr>) = Some s'"
proof (cases "steps s < MAX_STEPS cfg")
  case False
  with assms have "s' = s" by simp
  with False show ?thesis by (rule limit)
next
  case lt: True
  show ?thesis
  proof (cases "has_frame (env (iter s))")
    case False
    with assms lt have "run_loop fuel cfg g env (s\<lparr>iter := iter s + 1\<rparr>) = Some s'"
      by (simp add: loop_body_no_frame)
    with lt False show ?thesis by (rule retry)
  next
    case fr: True
    show ?thesis
    proof (cases "close_to_goal (the (cap_pos (env (iter s)))) g (GOAL_RADIUS cfg)")
      case True
      with assms lt fr have "s' = (after_check cfg g (env (iter s)) s)
         \<lparr>sent := sent (after_check cfg g (env (iter s)) s)
                   @ [(iter s, Stop, \<lparr>turn = 0, distance = 0\<rparr>)]\<rparr>"
        by (simp add: loop_body_frame)
      with lt fr True show ?thesis by (rule goal)
    next
      case False
      with assms lt fr have "run_loop fuel cfg g env
         ((after_check cfg g (env (iter s)) s)
            \<lparr>steps := steps (after_check cfg g (env (iter s)) s) + 1\<rparr>) = Some s'"
        by (simp add: loop_body_frame)
      with lt fr False show ?thesis by (rule step)
    qed
  qed
qed

lemma run_loop_iter_mono:
  "run_loop fuel cfg g env s = Some s' \<Longrightarrow> iter s \<le> iter s'"
proof (induction fuel arbitrary: s)
  case 0 then show ?case by simp
next
  case (Suc fuel)
  from Suc.prems show ?case
  proof (cases rule: run_loop_cases)
    case limit then show ?thesis by simp
  next
    case retry
    from Suc.IH[OF retry(3)] show ?thesis by simp
  next
    case goal then show ?thesis by (simp add: after_check_fields)
  next
    case step
    from Suc.IH[OF step(4)] show ?thesis by (simp add: after_check_fields)
  qed
qed

lemma ticks_of_append: "ticks_of k (xs @ ys) = ticks_of k xs @ ticks_of k ys"
  by (simp add: ticks_of_def)

lemma commands_of_append: "commands_of k (xs @ ys) = commands_of k xs @ commands_of k ys"
  by (simp add: commands_of_def)

lemma after_check_back_off:
  "ticks_of BackOff (sent (after_check cfg g r s))
     = ticks_of BackOff (sent s) @ (if coll_prev s < cap_coll r then [iter s] else [])"
  "set (commands_of BackOff (sent (after_check cfg g r s)))
     \<subseteq> set (commands_of BackOff (sent s))
        \<union> {\<lparr>turn = 0, distance = - STEP_DIST cfg * (6 / 10)\<rparr>}"
proof -
  obtain c where c: "sent (after_check cfg g r s)
     = sent s @ (iter s, Step, c)
         # (if coll_prev s < cap_coll r
            then [(iter s, BackOff, \<lparr>turn = 0, distance = - STEP_DIST cfg * (6 / 10)\<rparr>)] else [])"
    using after_check_sent by blast
  show "ticks_of BackOff (sent (after_check cfg g r s))
     = ticks_of BackOff (sent s) @ (if coll_prev s < cap_coll r then [iter s] else [])"
    unfolding c by (simp add: ticks_of_def)
  show "set (commands_of BackOff (sent (after_check cfg g r s)))
     \<subseteq> set (commands_of BackOff (sent s))
        \<union> {\<lparr>turn = 0, distance = - STEP_DIST cfg * (6 / 10)\<rparr>}"
    unfolding c by (auto simp: commands_of_def)
qed

lemma accounting_from:
  assumes "run_loop fuel cfg g env s = Some s'"
    and "sorted (coll_prev s # map snd (readings env (iter s) (iter s')))"
  shows "total_collisions s'
           = total_collisions s
             + positive_deltas (coll_prev s) (map snd (readings env (iter s) (iter s')))
         \<and> ticks_of BackOff (sent s')
           = ticks_of BackOff (sent s)
             @ increase_ticks (coll_prev s) (readings env (iter s) (iter s'))
         \<and> set (commands_of BackOff (sent s'))
           \<subseteq> set (commands_of BackOff (sent s))
              \<union> {\<lparr>turn = 0, distance = - STEP_DIST cfg * (6 / 10)\<rparr>}"
  using assms
proof (induction fuel arbitrary: s)
  case 0 then show ?case by simp
next
  case (Suc fuel)
  let ?i = "iter s"
  let ?r = "env ?i"
  let ?c = "cap_coll ?r"
  from Suc.prems(1) show ?case
  proof (cases rule: run_loop_cases)
    case limit
    then show ?thesis by (auto simp: readings_empty)
  next
    case retry
    let ?s1 = "s\<lparr>iter := ?i + 1\<rparr>"
    from run_loop_iter_mono[OF retry(3)] have lt: "?i < iter s'" by simp
    from readings_step[OF lt, of env] retry(2)
    have rd: "readings env ?i (iter s') = readings env (iter ?s1) (iter s')" by simp
    with Suc.prems(2) have "sorted (coll_prev ?s1 # map snd (readings env (iter ?s1) (iter s')))"
      by simp
    from Suc.IH[OF retry(3) this] rd show ?thesis by simp
  next
    case goal
    let ?a = "after_check cfg g ?r s"
    from goal(4) have it: "iter s' = Suc ?i" by (simp add: after_check_fields)
    have rd: "readings env ?i (iter s') = [(?i, ?c)]"
      unfolding it using goal(2) readings_step[of ?i "Suc ?i" env]
      by (simp add: readings_empty)
    from goal(4) have tot: "total_collisions s'
        = total_collisions s + (if coll_prev s < ?c then ?c - coll_prev s else 0)"
      by (simp add: after_check_fields)
    from goal(4) have "sent s' = sent ?a @ [(?i, Stop, \<lparr>turn = 0, distance = 0\<rparr>)]" by simp
    then have tk: "ticks_of BackOff (sent s') = ticks_of BackOff (sent ?a)"
      and cm: "commands_of BackOff (sent s') = commands_of BackOff (sent ?a)"
      by (simp_all add: ticks_of_def commands_of_def)
    from tot tk cm rd after_check_back_off[of cfg g ?r s] show ?thesis by simp
  next
    case step
    let ?a = "after_check cfg g ?r s"
    let ?s1 = "?a\<lparr>steps := steps ?a + 1\<rparr>"
    have it1: "iter ?s1 = Suc ?i" by (simp add: after_check_fields)
    from run_loop_iter_mono[OF step(4)] it1 have lt: "?i < iter s'" by simp
    from readings_step[OF lt, of env] step(2)
    have rd: "readings env ?i (iter s') = (?i, ?c) # readings env (iter ?s1) (iter s')"
      by (simp add: after_check_fields)
    with Suc.prems(2) have le: "coll_prev s \<le> ?c"
      and srt: "sorted (?c # map snd (readings env (iter ?s1) (iter s')))"
      by simp_all
    from le have cp: "coll_prev ?s1 = ?c" by (simp add: after_check_fields)
    from srt cp have "sorted (coll_prev ?s1 # map snd (readings env (iter ?s1) (iter s')))"
      by simp
    from Suc.IH[OF step(4) this]
    have ih: "total_collisions s'
           = total_collisions ?s1
             + positive_deltas ?c (map snd (readings env (iter ?s1) (iter s')))"
      "ticks_of BackOff (sent s')
           = ticks_of BackOff (sent ?s1)
             @ increase_ticks ?c (readings env (iter ?s1) (iter s'))"
      "set (commands_of BackOff (sent s'))
           \<subseteq> set (commands_of BackOff (sent ?s1))
              \<union> {\<lparr>turn = 0, distance = - STEP_DIST cfg * (6 / 10)\<rparr>}"
      unfolding cp by simp_all
    have tot1: "total_collisions ?s1
        = total_collisions s + (if coll_prev s < ?c then ?c - coll_prev s else 0)"
      by (simp add: after_check_fields)
    have sent1: "sent ?s1 = sent ?a" by simp
    from ih(1) tot1 rd have A: "total_collisions s'
           = total_collisions s
             + positive_deltas (coll_prev s) (map snd (readings env ?i (iter s')))"
      by simp
    from ih(2) sent1 after_check_back_off(1)[of cfg g ?r s] rd
    have B: "ticks_of BackOff (sent s')
           = ticks_of BackOff (sent s)
             @ increase_ticks (coll_prev s) (readings env ?i (iter s'))"
      by simp
    from ih(3) sent1 after_check_back_off(2)[of cfg g ?r s]
    have C: "set (commands_of BackOff (sent s'))
           \<subseteq> set (commands_of BackOff (sent s))
              \<union> {\<lparr>turn = 0, distance = - STEP_DIST cfg * (6 / 10)\<rparr>}"
      by auto
    from A B C show ?thesis by blast
  qed
qed

lemma run_loop_exit:
  assumes "run_loop fuel cfg g env s = Some s'"
  shows "steps s \<le> steps s'
       \<and> (steps s' < MAX_STEPS cfg \<longrightarrow>
             iter s < iter s'
           \<and> has_frame (env (iter s' - 1))
           \<and> close_to_goal (the (cap_pos (env (iter s' - 1)))) g (GOAL_RADIUS cfg)
           \<and> length (frame_ticks env (iter s) (iter s')) = steps s' - steps s + 1
           \<and> sent s' \<noteq> []
           \<and> last (sent s') = (iter s' - 1, Stop, \<lparr>turn = 0, distance = 0\<rparr>))
       \<and> (MAX_STEPS cfg \<le> steps s' \<longrightarrow>
             length (frame_ticks env (iter s) (iter s')) = steps s' - steps s
           \<and> (steps s \<le> MAX_STEPS cfg \<longrightarrow> steps s' = MAX_STEPS cfg))"
  using assms
proof (induction fuel arbitrary: s)
  case 0 then show ?case by simp
next
  case (Suc fuel)
  let ?i = "iter s"
  let ?r = "env ?i"
  from Suc.prems show ?case
  proof (cases rule: run_loop_cases)
    case limit
    then show ?thesis by (simp add: frame_ticks_empty)
  next
    case retry
    let ?s1 = "s\<lparr>iter := ?i + 1\<rparr>"
    from run_loop_iter_mono[OF retry(3)] have lt: "?i < iter s'" by simp
    from frame_ticks_step[OF lt, of env] retry(2)
    have ft: "frame_ticks env ?i (iter s') = frame_ticks env (iter ?s1) (iter s')" by simp
    from Suc.IH[OF retry(3)] ft lt retry(1) show ?thesis by simp
  next
    case goal
    let ?a = "after_check cfg g ?r s"
    from goal(4) have f: "iter s' = Suc ?i" "steps s' = steps s"
      "sent s' = sent ?a @ [(?i, Stop, \<lparr>turn = 0, distance = 0\<rparr>)]"
      by (simp_all add: after_check_fields)
    have ft: "frame_ticks env ?i (iter s') = [?i]"
      unfolding f(1) using goal(2) frame_ticks_step[of ?i "Suc ?i" env]
      by (simp add: frame_ticks_empty)
    from f ft goal(1,2,3) show ?thesis by simp
  next
    case step
    let ?a = "after_check cfg g ?r s"
    let ?s1 = "?a\<lparr>steps := steps ?a + 1\<rparr>"
    have f1: "iter ?s1 = Suc ?i" "steps ?s1 = Suc (steps s)"
      by (simp_all add: after_check_fields)
    from run_loop_iter_mono[OF step(4)] f1 have lt: "?i < iter s'" by simp
    from frame_ticks_step[OF lt, of env] step(2)
    have ft: "length (frame_ticks env ?i (iter s'))
        = Suc (length (frame_ticks env (Suc ?i) (iter s')))"
      by simp
    from Suc.IH[OF step(4)] have ih:
      "Suc (steps s) \<le> steps s'"
      "steps s' < MAX_STEPS cfg \<longrightarrow>
             Suc ?i < iter s'
           \<and> has_frame (env (iter s' - 1))
           \<and> close_to_goal (the (cap_pos (env (iter s' - 1)))) g (GOAL_RADIUS cfg)
           \<and> length (frame_ticks env (Suc ?i) (iter s')) = steps s' - Suc (steps s) + 1
           \<and> sent s' \<noteq> []
           \<and> last (sent s') = (iter s' - 1, Stop, \<lparr>turn = 0, distance = 0\<rparr>)"
      "MAX_STEPS cfg \<le> steps s' \<longrightarrow>
             length (frame_ticks env (Suc ?i) (iter s')) = steps s' - Suc (steps s)
           \<and> (Suc (steps s) \<le> MAX_STEPS cfg \<longrightarrow> steps s' = MAX_STEPS cfg)"
      unfolding f1 by blast+
    from ih(1) have A: "steps s \<le> steps s'" by simp
    from ih(1,2) ft lt have B: "steps s' < MAX_STEPS cfg \<longrightarrow>
             iter s < iter s'
           \<and> has_frame (env (iter s' - 1))
           \<and> close_to_goal (the (cap_pos (env (iter s' - 1)))) g (GOAL_RADIUS cfg)
           \<and> length (frame_ticks env (iter s) (iter s')) = steps s' - steps s + 1
           \<and> sent s' \<noteq> []
           \<and> last (sent s') = (iter s' - 1, Stop, \<lparr>turn = 0, distance = 0\<rparr>)"
      by auto
    from ih(1,3) ft step(1) have C: "MAX_STEPS cfg \<le> steps s' \<longrightarrow>
             length (frame_ticks env (iter s) (iter s')) = steps s' - steps s
           \<and> (steps s \<le> MAX_STEPS cfg \<longrightarrow> steps s' = MAX_STEPS cfg)"
      by auto
    from A B C show ?thesis by blast
  qed
qed

lemma run_loop_more_fuel:
  "run_loop fuel cfg g env s = Some s' \<Longrightarrow> run_loop (fuel + k) cfg g env s = Some s'"
proof (induction fuel arbitrary: s)
  case 0 then show ?case by simp
next
  case (Suc fuel)
  from Suc.prems show ?case
  proof (cases rule: run_loop_cases)
    case limit then show ?thesis by simp
  next
    case retry
    from Suc.IH[OF retry(3)] retry(1,2) show ?thesis
      by (simp add: loop_body_no_frame)
  next
    case goal then show ?thesis by (simp add: loop_body_frame)
  next
    case step
    from Suc.IH[OF step(4)] step(1,2,3) show ?thesis
      by (simp add: loop_body_frame)
  qed
qed

lemma run_loop_skip:
  assumes "steps s < MAX_STEPS cfg"
    and "\<forall>j. iter s \<le> j \<and> j < iter s + k \<longrightarrow> \<not> has_frame (env j)"
  shows "run_loop (k + fuel) cfg g env s = run_loop fuel cfg g env (s\<lparr>iter := iter s + k\<rparr>)"
  using assms
proof (induction k arbitrary: s)
  case 0 then show ?case by simp
next
  case (Suc k)
  let ?s1 = "s\<lparr>iter := iter s + 1\<rparr>"
  from Suc.prems(2) have nf: "\<not> has_frame (env (iter s))" by simp
  from Suc.prems have "steps ?s1 < MAX_STEPS cfg"
    "\<forall>j. iter ?s1 \<le> j \<and> j < iter ?s1 + k \<longrightarrow> \<not> has_frame (env j)"
    by simp_all
  from Suc.IH[OF this] have "run_loop (k + fuel) cfg g env ?s1
      = run_loop fuel cfg g env (s\<lparr>iter := iter s + Suc k\<rparr>)" by simp
  with Suc.prems(1) nf show ?case by (simp add: loop_body_no_frame)
qed

lemma run_loop_returns:
  assumes never: "\<forall>j. has_frame (env j) \<longrightarrow>
        \<not> close_to_goal (the (cap_pos (env j))) g (GOAL_RADIUS cfg)"
    and often: "\<forall>n. \<exists>j\<ge>n. has_frame (env j)"
  shows "\<exists>fuel s'. run_loop fuel cfg g env s = Some s'"
proof (induction "MAX_STEPS cfg - steps s" arbitrary: s)
  case 0
  then have "run_loop (Suc 0) cfg g env s = Some s" by simp
  then show ?case by blast
next
  case (Suc d)
  then have lt: "steps s < MAX_STEPS cfg" by simp
  define m where "m = (LEAST j. iter s \<le> j \<and> has_frame (env j))"
  from often obtain j0 where j0: "iter s \<le> j0 \<and> has_frame (env j0)" by blast
  have m: "iter s \<le> m \<and> has_frame (env m)"
    unfolding m_def using j0 by (rule LeastI)
  have least: "m \<le> j" if "iter s \<le> j \<and> has_frame (env j)" for j
    unfolding m_def using that by (rule Least_le)
  define k where "k = m - iter s"
  from m have mk: "iter s + k = m" by (simp add: k_def)
  have skip: "\<forall>j. iter s \<le> j \<and> j < iter s + k \<longrightarrow> \<not> has_frame (env j)"
  proof (intro allI impI notI)
    fix j assume "iter s \<le> j \<and> j < iter s + k" "has_frame (env j)"
    with least[of j] mk show False by simp
  qed
  let ?s0 = "s\<lparr>iter := m\<rparr>"
  let ?a = "after_check cfg g (env m) ?s0"
  let ?s1 = "?a\<lparr>steps := steps ?a + 1\<rparr>"
  have "steps ?s1 = Suc (steps s)" by (simp add: after_check_fields)
  with Suc(2) have "d = MAX_STEPS cfg - steps ?s1" by simp
  from Suc(1)[OF this] obtain fuel s' where r: "run_loop fuel cfg g env ?s1 = Some s'"
    by blast
  from m never have nc: "\<not> close_to_goal (the (cap_pos (env m))) g (GOAL_RADIUS cfg)"
    by blast
  from lt m nc r have "run_loop (Suc fuel) cfg g env ?s0 = Some s'"
    by (simp add: loop_body_frame)
  with run_loop_skip[OF lt skip, of "Suc fuel" g] mk
  have "run_loop (k + Suc fuel) cfg g env s = Some s'" by simp
  then show ?case by blast
qed

subsection \<open>Evaluating sample runs\<close>

lemma close_to_goal_iff:
  assumes "0 \<le> radius"
  shows "close_to_goal p g radius
     \<longleftrightarrow> (goal_x g - dict_get p ''x'' 0) * (goal_x g - dict_get p ''x'' 0)
        + (goal_z g - dict_get p ''z'' 0) * (goal_z g - dict_get p ''z'' 0) \<le> radius * radius"
proof -
  let ?d = "(goal_x g - dict_get p ''x'' 0) * (goal_x g - dict_get p ''x'' 0)
        + (goal_z g - dict_get p ''z'' 0) * (goal_z g - dict_get p ''z'' 0)"
  from assms have "sqrt (radius * radius) = radius" by simp
  then have "sqrt ?d \<le> radius \<longleftrightarrow> sqrt ?d \<le> sqrt (radius * radius)" by simp
  also have "\<dots> \<longleftrightarrow> ?d \<le> radius * radius" by (rule real_sqrt_le_iff)
  finally show ?thesis by (simp add: close_to_goal_def Let_def)
qed

lemma origin_far: "\<not> close_to_goal (the (cap_pos (frame_at_origin c))) far_goal 3"
  by (simp add: close_to_goal_iff frame_at_origin_def far_goal_def dict_get_def)

lemma origin_near: "close_to_goal (the (cap_pos (frame_at_origin c))) near_goal 3"
  by (simp add: close_to_goal_iff frame_at_origin_def near_goal_def dict_get_def)

lemma frame_at_origin_has_frame: "has_frame (frame_at_origin c)"
  by (simp add: has_frame_def frame_at_origin_def)

lemma frame_at_origin_coll: "cap_coll (frame_at_origin c) = c"
  by (simp add: frame_at_origin_def)

lemma ticks_of_Nil: "ticks_of k [] = []"
  by (simp add: ticks_of_def)

lemma run_loop_numeral:
  "run_loop (numeral n) cfg g env s =
     (if steps s < MAX_STEPS cfg
      then (case loop_body cfg g (env (iter s)) s of
              Continue s' \<Rightarrow> run_loop (pred_numeral n) cfg g env s'
            | Break s' \<Rightarrow> Some s')
      else Some s)"
  by (simp add: numeral_eq_Suc)

lemma six_eval:
  "map_option (\<lambda>s. (steps s, iter s))
     (run_loop 7 (NavigatorConfig\<lparr>MAX_STEPS := 6\<rparr>) far_goal six_readings_env (init_state 0))
   = Some (6, 6)"
  by (simp add: run_loop_numeral init_state_def NavigatorConfig_def loop_body_frame
      six_readings_env_def frame_at_origin_has_frame frame_at_origin_coll origin_far
      after_check_fields)

lemma six_readings: "readings six_readings_env 0 6 = [(0, 0), (1, 0), (2, 1), (3, 1), (4, 3), (5, 3)]"
  by (simp add: readings_def frame_ticks_def upt_rec six_readings_env_def
      frame_at_origin_has_frame frame_at_origin_coll)

lemma steady_eval:
  "map_option (\<lambda>s. (total_collisions s, steps s, iter s))
     (run_loop 1 NavigatorConfig near_goal steady_env (init_state 0)) = Some (0, 0, 1)"
  by (simp add: init_state_def NavigatorConfig_def loop_body_frame steady_env_def
      frame_at_origin_has_frame frame_at_origin_coll origin_near after_check_fields)

subsection \<open>Collision accounting\<close>

text \<open>
  C4 (as amended). For every run that returns and whose collision readings never
  decrease (the count read before the loop, then one reading per tick that got a frame),
  the accumulated total is the sum of the positive differences between consecutive
  readings, a back-off command is sent at exactly the ticks whose reading is above the
  previous one, and every back-off command is \<open>{turn: 0, distance: -0.6 * STEP_DIST}\<close>.
  The readings \<open>[0,0,1,1,3,3]\<close> give the total \<open>3\<close> and back-offs at the third and fifth
  tick.
\<close>

theorem collision_accounting:
  assumes "run_loop fuel cfg g env (init_state collisions0) = Some s'"
    and "sorted (collisions0 # map snd (readings env 0 (iter s')))"
  shows "total_collisions s' = positive_deltas collisions0 (map snd (readings env 0 (iter s')))
       \<and> ticks_of BackOff (sent s') = increase_ticks collisions0 (readings env 0 (iter s'))
       \<and> set (commands_of BackOff (sent s'))
           \<subseteq> {\<lparr>turn = 0, distance = - STEP_DIST cfg * (6 / 10)\<rparr>}
       \<and> run fuel cfg g collisions0 env
           = Some (positive_deltas collisions0 (map snd (readings env 0 (iter s'))), steps s')"
proof -
  have i: "iter (init_state collisions0) = 0" "coll_prev (init_state collisions0) = collisions0"
    "total_collisions (init_state collisions0) = 0" "sent (init_state collisions0) = []"
    by (simp_all add: init_state_def)
  from assms(2) have "sorted (coll_prev (init_state collisions0)
      # map snd (readings env (iter (init_state collisions0)) (iter s')))"
    by (simp add: i)
  from accounting_from[OF assms(1) this]
  have A: "total_collisions s' = positive_deltas collisions0 (map snd (readings env 0 (iter s')))"
    and B: "ticks_of BackOff (sent s') = increase_ticks collisions0 (readings env 0 (iter s'))"
    and C: "set (commands_of BackOff (sent s'))
           \<subseteq> {\<lparr>turn = 0, distance = - STEP_DIST cfg * (6 / 10)\<rparr>}"
    by (simp_all add: i ticks_of_Nil commands_of_def)
  from assms(1) A have "run fuel cfg g collisions0 env
      = Some (positive_deltas collisions0 (map snd (readings env 0 (iter s'))), steps s')"
    by (simp add: run_def)
  with A B C show ?thesis by blast
qed

theorem collision_accounting_witness:
  "\<exists>s'. run_loop 7 (NavigatorConfig\<lparr>MAX_STEPS := 6\<rparr>) far_goal six_readings_env (init_state 0)
          = Some s'
      \<and> map snd (readings six_readings_env 0 (iter s')) = [0, 0, 1, 1, 3, 3]
      \<and> sorted (0 # map snd (readings six_readings_env 0 (iter s')))
      \<and> total_collisions s' = 3
      \<and> ticks_of BackOff (sent s') = [2, 4]
      \<and> run 7 (NavigatorConfig\<lparr>MAX_STEPS := 6\<rparr>) far_goal 0 six_readings_env = Some (3, 6)"
proof -
  from six_eval obtain s' where
    s': "run_loop 7 (NavigatorConfig\<lparr>MAX_STEPS := 6\<rparr>) far_goal six_readings_env (init_state 0)
          = Some s'" and f: "steps s' = 6" "iter s' = 6"
    by auto
  have rd: "readings six_readings_env 0 (iter s') = [(0, 0), (1, 0), (2, 1), (3, 1), (4, 3), (5, 3)]"
    unfolding f by (rule six_readings)
  then have srt: "sorted (0 # map snd (readings six_readings_env 0 (iter s')))"
    by simp
  from collision_accounting[OF s' srt] rd f s' srt show ?thesis
    by simp
qed

text \<open>
  Without the restriction the accounting differs: the loop compares a reading with the
  last reading that raised the total, not with the previous reading. After the count
  \<open>0\<close>, the readings \<open>2, 1, 2\<close> give the total \<open>2\<close> and one back-off, at the first tick;
  the positive differences between consecutive readings sum to \<open>3\<close> and the reading rises at
  the first and at the third tick.
\<close>

theorem collision_accounting_counterexample:
  "map_option (\<lambda>s. (total_collisions s, ticks_of BackOff (sent s), iter s))
     (run_loop 4 (NavigatorConfig\<lparr>MAX_STEPS := 3\<rparr>) far_goal dip_env (init_state 0))
     = Some (2, [0], 3)
   \<and> readings dip_env 0 3 = [(0, 2), (1, 1), (2, 2)]
   \<and> positive_deltas 0 [2, 1, 2] = 3
   \<and> increase_ticks 0 [(0, 2), (1, 1), (2, 2)] = [0, 2]"
  by (simp add: run_loop_numeral init_state_def NavigatorConfig_def loop_body_frame
      dip_env_def frame_at_origin_has_frame frame_at_origin_coll origin_far after_check_fields
      after_check_back_off ticks_of_Nil readings_def frame_ticks_def upt_rec)

subsection \<open>Goal exit and step limit\<close>

text \<open>
  C6 (as amended). On a tick that got a frame the loop makes the goal check before it
  increments the step counter: if the robot is close to the goal it sends the stop
  command \<open>(0, 0)\<close> and leaves the loop with the counter unchanged, otherwise it adds one.
  So when a run ends at the goal, the tick on which the goal was close is not counted:
  the returned number of steps is one less than the number of ticks that got a frame, and
  the stop command is the last command sent.
\<close>

theorem goal_check_before_increment:
  assumes "run_loop fuel cfg g env (init_state collisions0) = Some s'"
    and "steps s' < MAX_STEPS cfg"
  shows "0 < iter s'
       \<and> has_frame (env (iter s' - 1))
       \<and> close_to_goal (the (cap_pos (env (iter s' - 1)))) g (GOAL_RADIUS cfg)
       \<and> length (frame_ticks env 0 (iter s')) = steps s' + 1
       \<and> sent s' \<noteq> []
       \<and> last (sent s') = (iter s' - 1, Stop, \<lparr>turn = 0, distance = 0\<rparr>)
       \<and> run fuel cfg g collisions0 env = Some (total_collisions s', steps s')
       \<and> (\<forall>r s. has_frame r \<and> close_to_goal (the (cap_pos r)) g (GOAL_RADIUS cfg) \<longrightarrow>
            (\<exists>t. loop_body cfg g r s = Break t \<and> steps t = steps s
                \<and> last (sent t) = (iter s, Stop, \<lparr>turn = 0, distance = 0\<rparr>)))
       \<and> (\<forall>r s. has_frame r \<and> \<not> close_to_goal (the (cap_pos r)) g (GOAL_RADIUS cfg) \<longrightarrow>
            (\<exists>t. loop_body cfg g r s = Continue t \<and> steps t = steps s + 1))"
proof -
  have i: "iter (init_state collisions0) = 0" "steps (init_state collisions0) = 0"
    by (simp_all add: init_state_def)
  from run_loop_exit[OF assms(1)] assms(2)
  have A: "0 < iter s'" "has_frame (env (iter s' - 1))"
    "close_to_goal (the (cap_pos (env (iter s' - 1)))) g (GOAL_RADIUS cfg)"
    "length (frame_ticks env 0 (iter s')) = steps s' + 1"
    "sent s' \<noteq> []"
    "last (sent s') = (iter s' - 1, Stop, \<lparr>turn = 0, distance = 0\<rparr>)"
    by (simp_all add: i)
  from assms(1) have B: "run fuel cfg g collisions0 env = Some (total_collisions s', steps s')"
    by (simp add: run_def)
  have C: "\<forall>r s. has_frame r \<and> close_to_goal (the (cap_pos r)) g (GOAL_RADIUS cfg) \<longrightarrow>
            (\<exists>t. loop_body cfg g r s = Break t \<and> steps t = steps s
                \<and> last (sent t) = (iter s, Stop, \<lparr>turn = 0, distance = 0\<rparr>))"
    by (simp add: loop_body_frame after_check_fields)
  have D: "\<forall>r s. has_frame r \<and> \<not> close_to_goal (the (cap_pos r)) g (GOAL_RADIUS cfg) \<longrightarrow>
            (\<exists>t. loop_body cfg g r s = Continue t \<and> steps t = steps s + 1)"
    by (simp add: loop_body_frame after_check_fields)
  from A B C D show ?thesis by blast
qed

theorem goal_check_before_increment_witness:
  "\<exists>s'. run_loop 1 NavigatorConfig near_goal steady_env (init_state 0) = Some s'
      \<and> steps s' < MAX_STEPS NavigatorConfig
      \<and> steps s' = 0
      \<and> length (frame_ticks steady_env 0 (iter s')) = 1
      \<and> last (sent s') = (0, Stop, \<lparr>turn = 0, distance = 0\<rparr>)
      \<and> run 1 NavigatorConfig near_goal 0 steady_env = Some (0, 0)"
proof -
  from steady_eval obtain s' where
    s': "run_loop 1 NavigatorConfig near_goal steady_env (init_state 0) = Some s'"
    and f: "total_collisions s' = 0" "steps s' = 0" "iter s' = 1"
    by auto
  from f have lt: "steps s' < MAX_STEPS NavigatorConfig"
    by (simp add: NavigatorConfig_def)
  from goal_check_before_increment[OF s' lt] f s' lt show ?thesis
    by simp
qed

text \<open>
  A run in which the goal is close on the first tick: one tick got a frame, the returned
  number of steps is \<open>0\<close>, not \<open>1\<close>.
\<close>

theorem goal_tick_counted_counterexample:
  "run 1 NavigatorConfig near_goal 0 steady_env = Some (0, 0)
   \<and> has_frame (steady_env 0)
   \<and> close_to_goal (the (cap_pos (steady_env 0))) near_goal (GOAL_RADIUS NavigatorConfig)
   \<and> map_option iter (run_loop 1 NavigatorConfig near_goal steady_env (init_state 0)) = Some 1
   \<and> length (frame_ticks steady_env 0 1) = 1"
  by (simp add: run_def init_state_def NavigatorConfig_def loop_body_frame steady_env_def
      frame_at_origin_has_frame frame_at_origin_coll origin_near after_check_fields
      frame_ticks_def)

text \<open>
  C7. If the robot is never close to the goal and a frame always arrives eventually, the
  run returns: with enough fuel, and with any more, the loop ends with the step counter
  equal to \<open>MAX_STEPS\<close>, after exactly \<open>MAX_STEPS\<close> ticks that got a frame, and
  \<open>Navigator.run\<close> returns that number of steps. An iteration without an image or without
  a position continues the loop and leaves the step counter as it is.
\<close>

theorem run_stops_at_step_limit:
  assumes never: "\<forall>j. has_frame (env j) \<longrightarrow>
        \<not> close_to_goal (the (cap_pos (env j))) g (GOAL_RADIUS cfg)"
    and often: "\<forall>n. \<exists>j\<ge>n. has_frame (env j)"
  shows "(\<exists>fuel s'. run_loop fuel cfg g env (init_state collisions0) = Some s'
            \<and> (\<forall>k. run_loop (fuel + k) cfg g env (init_state collisions0) = Some s')
            \<and> steps s' = MAX_STEPS cfg
            \<and> length (frame_ticks env 0 (iter s')) = MAX_STEPS cfg
            \<and> run fuel cfg g collisions0 env = Some (total_collisions s', MAX_STEPS cfg))
       \<and> (\<forall>r s. \<not> has_frame r \<longrightarrow>
            (\<exists>t. loop_body cfg g r s = Continue t \<and> steps t = steps s))"
proof -
  have i: "iter (init_state collisions0) = 0" "steps (init_state collisions0) = 0"
    by (simp_all add: init_state_def)
  from run_loop_returns[OF never often, of "init_state collisions0"]
  obtain fuel s' where r: "run_loop fuel cfg g env (init_state collisions0) = Some s'"
    by blast
  have more: "\<forall>k. run_loop (fuel + k) cfg g env (init_state collisions0) = Some s'"
    using run_loop_more_fuel[OF r] by blast
  note ex = run_loop_exit[OF r]
  have ge: "MAX_STEPS cfg \<le> steps s'"
  proof (rule ccontr)
    assume "\<not> MAX_STEPS cfg \<le> steps s'"
    then have "steps s' < MAX_STEPS cfg" by simp
    with ex have "has_frame (env (iter s' - 1))"
      "close_to_goal (the (cap_pos (env (iter s' - 1)))) g (GOAL_RADIUS cfg)"
      by blast+
    with never show False by blast
  qed
  with ex have st: "steps s' = MAX_STEPS cfg"
    and ft: "length (frame_ticks env 0 (iter s')) = MAX_STEPS cfg"
    by (simp_all add: i)
  from r st have rn: "run fuel cfg g collisions0 env = Some (total_collisions s', MAX_STEPS cfg)"
    by (simp add: run_def)
  have nf: "\<forall>r s. \<not> has_frame r \<longrightarrow>
            (\<exists>t. loop_body cfg g r s = Continue t \<and> steps t = steps s)"
    by (simp add: loop_body_no_frame)
  from r more st ft rn nf show ?thesis by blast
qed

theorem run_stops_at_step_limit_witness:
  "(\<forall>j. \<not> (has_frame (alternating_env j)
           \<and> close_to_goal (the (cap_pos (alternating_env j))) far_goal (GOAL_RADIUS NavigatorConfig)))
   \<and> (\<forall>n. \<exists>j\<ge>n. has_frame (alternating_env j))
   \<and> (\<exists>fuel s'. run_loop fuel NavigatorConfig far_goal alternating_env (init_state 0) = Some s'
          \<and> steps s' = 1200
          \<and> length (frame_ticks alternating_env 0 (iter s')) = 1200
          \<and> run fuel NavigatorConfig far_goal 0 alternating_env = Some (total_collisions s', 1200))"
proof -
  have never: "\<forall>j. has_frame (alternating_env j) \<longrightarrow>
      \<not> close_to_goal (the (cap_pos (alternating_env j))) far_goal (GOAL_RADIUS NavigatorConfig)"
    by (simp add: alternating_env_def origin_far NavigatorConfig_def has_frame_def no_frame_def)
  have often: "\<forall>n. \<exists>j\<ge>n. has_frame (alternating_env j)"
  proof
    fix n
    have "n \<le> 2 * n \<and> has_frame (alternating_env (2 * n))"
      by (simp add: alternating_env_def frame_at_origin_has_frame)
    then show "\<exists>j\<ge>n. has_frame (alternating_env j)" by blast
  qed
  have m: "MAX_STEPS NavigatorConfig = 1200" by (simp add: NavigatorConfig_def)
  from run_stops_at_step_limit[OF never often, of 0]
  have "\<exists>fuel s'. run_loop fuel NavigatorConfig far_goal alternating_env (init_state 0) = Some s'
          \<and> steps s' = 1200
          \<and> length (frame_ticks alternating_env 0 (iter s')) = 1200
          \<and> run fuel NavigatorConfig far_goal 0 alternating_env = Some (total_collisions s', 1200)"
    unfolding m by blast
  with never often show ?thesis by blast
qed

end
